theory Spec2Isabelle
  imports Complex_Main
begin

section \<open>Driver for TrippLite UPS battery backups: the register read engine\<close>

text \<open>
  The theory embeds \<^verbatim>\<open>src/tripplite/driver.py\<close>: the module-level \<^verbatim>\<open>structure\<close>
  dictionary, \<^verbatim>\<open>Battery._read\<close> and \<^verbatim>\<open>Battery.get\<close>.  Python exceptions are values
  of a sum type, the HID device is an explicit history of feature-report requests together
  with a function that answers each request, and Python dictionaries are association lists
  in insertion order.
\<close>

subsection \<open>Exceptions\<close>

text \<open>
  \<^verbatim>\<open>_read\<close> raises \<^verbatim>\<open>IOError\<close> with one of two messages.  Indexing a list out of
  range raises \<^verbatim>\<open>IndexError\<close>, looking up a missing dictionary key raises
  \<^verbatim>\<open>KeyError\<close>, adding an integer to a dictionary raises \<^verbatim>\<open>TypeError\<close>; none of the
  three is a subclass of \<^verbatim>\<open>IOError\<close>.
\<close>

datatype exn = IOError string | IndexError | KeyError string | TypeError

fun is_IOError :: "exn \<Rightarrow> bool" where
  "is_IOError (IOError m) = True"
| "is_IOError IndexError = False"
| "is_IOError (KeyError k) = False"
| "is_IOError TypeError = False"

subsection \<open>Python dictionaries and lists\<close>

text \<open>
  \<^verbatim>\<open>d[k] = v\<close>: an existing key keeps its position and gets the new value, a new key is
  appended.
\<close>

fun dict_set :: "('k \<times> 'v) list \<Rightarrow> 'k \<Rightarrow> 'v \<Rightarrow> ('k \<times> 'v) list" where
  "dict_set [] k v = [(k, v)]"
| "dict_set ((k', v') # d) k v = (if k' = k then (k, v) # d else (k', v') # dict_set d k v)"

text \<open>A dictionary comprehension inserts its pairs from left to right.\<close>

definition dict_of_pairs :: "('k \<times> 'v) list \<Rightarrow> ('k \<times> 'v) list" where
  "dict_of_pairs ps = foldl (\<lambda>d (k, v). dict_set d k v) [] ps"

text \<open>\<^verbatim>\<open>xs[i]\<close> for a non-negative index: \<^verbatim>\<open>IndexError\<close> out of range.\<close>

definition index :: "'a list \<Rightarrow> nat \<Rightarrow> exn + 'a" where
  "index xs i = (if i < length xs then Inr (xs ! i) else Inl IndexError)"

subsection \<open>The register schema\<close>

text \<open>
  A register descriptor is a dictionary with the keys \<^verbatim>\<open>address\<close>, \<^verbatim>\<open>bytes\<close>,
  \<^verbatim>\<open>format\<close> and, for bit fields only, \<^verbatim>\<open>keys\<close>.
\<close>

record descriptor =
  address :: nat
  bytes :: nat
  format :: string
  keys :: "string list option"

text \<open>
  A category of \<^verbatim>\<open>structure\<close> is either a descriptor or a dictionary from subcategory
  names to descriptors.  The source tells the two apart by the key \<^verbatim>\<open>address\<close>, which
  every descriptor has; a dictionary of subcategories may have a subcategory of that
  name too, and \<^verbatim>\<open>get\<close> below treats it as the source does.
\<close>

datatype entry = Flat descriptor | Nested "(string \<times> descriptor) list"

type_synonym schema = "(string \<times> entry) list"

definition reg :: "nat \<Rightarrow> nat \<Rightarrow> string \<Rightarrow> descriptor" where
  "reg a n f = \<lparr>address = a, bytes = n, format = f, keys = None\<rparr>"

definition status_register :: descriptor where
  "status_register =
     \<lparr>address = 50, bytes = 1, format = ''b'',
      keys = Some [''shutdown imminent'', ''ac present'', ''charging'', ''discharging'',
                   ''needs replacement'', ''below remaining capacity'', ''fully charged'',
                   ''fully discharged'']\<rparr>"

definition structure_dict :: schema where
  "structure_dict =
    [(''config'', Nested
        [(''voltage'', reg 48 1 ''i''),
         (''frequency'', reg 2 1 ''i''),
         (''power'', reg 3 2 ''i'')]),
     (''status'', Flat status_register),
     (''input'', Nested
        [(''voltage'', reg 24 2 ''f''),
         (''frequency'', reg 25 2 ''f'')]),
     (''output'', Nested
        [(''voltage'', reg 27 2 ''f''),
         (''power'', reg 71 2 ''i'')]),
     (''health'', Flat (reg 52 1 ''i'')),
     (''time to empty'', Flat (reg 53 2 ''i''))]"

subsection \<open>The HID device\<close>

text \<open>
  \<^verbatim>\<open>self.device.get_feature_report(address, length)\<close> returns a list of integers in
  \<open>0..255\<close>, possibly empty.  What the device answers may depend on everything asked so
  far, so a device is a function from the history of requests (the current one last) to
  the report, and the state threaded through the driver is that history.
\<close>

type_synonym report = "nat list"
type_synonym request = "nat \<times> nat"
type_synonym device = "request list \<Rightarrow> report"

definition get_feature_report :: "device \<Rightarrow> request list \<Rightarrow> nat \<Rightarrow> nat \<Rightarrow> report \<times> request list" where
  "get_feature_report dev h a n = (let h' = h @ [(a, n)] in (dev h', h'))"

subsection \<open>Decoding a report\<close>

datatype val = VFlags "(string \<times> bool) list" | VInt nat | VFloat real | VNone

text \<open>Binary digits of a natural number, most significant first, as \<^verbatim>\<open>'{:b}'\<close> prints them.\<close>

fun bin :: "nat \<Rightarrow> string" where
  "bin n = (if n < 2 then [if n = 0 then CHR ''0'' else CHR ''1'']
            else bin (n div 2) @ [if n mod 2 = 0 then CHR ''0'' else CHR ''1''])"

declare bin.simps [simp del]

text \<open>\<^verbatim>\<open>'{:08b}'.format(n)\<close>: zero-padded on the left to at least eight characters.\<close>

definition format_08b :: "nat \<Rightarrow> string" where
  "format_08b n = replicate (8 - length (bin n)) CHR ''0'' @ bin n"

text \<open>\<^verbatim>\<open>bool(int(v))\<close> for a one-character string \<open>v\<close> holding a decimal digit.\<close>

definition int_of_digit :: "char \<Rightarrow> nat" where
  "int_of_digit c = of_char c - of_char CHR ''0''"

definition bool_of_digit :: "char \<Rightarrow> bool" where
  "bool_of_digit c = (int_of_digit c \<noteq> 0)"

text \<open>
  Lines 147 to 157 of \<^verbatim>\<open>_read\<close>, which run once a non-empty report has arrived.  The
  quotient by \<^verbatim>\<open>10.0\<close> is kept as an exact real number.  A format that matches no branch
  falls off the end of the function, which returns \<^verbatim>\<open>None\<close>.
\<close>

definition decode :: "descriptor \<Rightarrow> report \<Rightarrow> exn + val" where
  "decode options report =
    (case index report 0 of Inl e \<Rightarrow> Inl e | Inr r0 \<Rightarrow>
     if address options \<noteq> r0 then Inl (IOError ''Received unexpected data.'')
     else if format options = ''b'' then
       (case index report 1 of Inl e \<Rightarrow> Inl e | Inr r1 \<Rightarrow>
          (let bits = rev (format_08b r1) in
           (case keys options of None \<Rightarrow> Inl (KeyError ''keys'')
            | Some ks \<Rightarrow>
                Inr (VFlags (dict_of_pairs (map (\<lambda>(k, v). (k, bool_of_digit v)) (zip ks bits)))))))
     else if format options = ''i'' \<and> bytes options = 2 then
       (case index report 2 of Inl e \<Rightarrow> Inl e | Inr r2 \<Rightarrow>
          (case index report 1 of Inl e \<Rightarrow> Inl e | Inr r1 \<Rightarrow> Inr (VInt (push_bit 8 r2 + r1))))
     else if format options = ''i'' \<and> bytes options = 1 then
       (case index report 1 of Inl e \<Rightarrow> Inl e | Inr r1 \<Rightarrow> Inr (VInt r1))
     else if format options = ''f'' then
       (case index report 2 of Inl e \<Rightarrow> Inl e | Inr r2 \<Rightarrow>
          (case index report 1 of Inl e \<Rightarrow> Inl e | Inr r1 \<Rightarrow>
             Inr (VFloat (real (push_bit 8 r2 + r1) / 10))))
     else Inr VNone)"

subsection \<open>Reading one register\<close>

text \<open>
  \<^verbatim>\<open>_read(options, retries)\<close>: one feature-report request; an empty report is retried by
  a recursive call while \<^verbatim>\<open>retries > 0\<close>.
\<close>

fun read :: "device \<Rightarrow> request list \<Rightarrow> descriptor \<Rightarrow> nat \<Rightarrow> (exn + val) \<times> request list" where
  "read dev h options retries =
    (case get_feature_report dev h (address options) (bytes options + 1) of (report, h') \<Rightarrow>
       if report = [] then
         (if retries > 0 then read dev h' options (retries - 1)
          else (Inl (IOError ''Did not receive data.''), h'))
       else (decode options report, h'))"

declare read.simps [simp del]

subsection \<open>Building the snapshot\<close>

datatype outval = OVal val | ODict "(string \<times> val) list"

text \<open>
  The inner loop of \<^verbatim>\<open>get\<close> over the subcategories of a nested category.  It fills the
  dictionary stored under the category in place, so what was stored before an exception
  stays there; the exception leaves the loop.
\<close>

fun read_subcategories ::
  "device \<Rightarrow> request list \<Rightarrow> (string \<times> descriptor) list \<Rightarrow> (string \<times> val) list
     \<Rightarrow> exn option \<times> (string \<times> val) list \<times> request list" where
  "read_subcategories dev h [] d = (None, d, h)"
| "read_subcategories dev h ((subcategory, options) # rest) d =
    (case read dev h options 3 of
       (Inl e, h') \<Rightarrow> (Some e, d, h')
     | (Inr v, h') \<Rightarrow> read_subcategories dev h' rest (dict_set d subcategory v))"

text \<open>
  \<^verbatim>\<open>_read\<close> applied to a dictionary of subcategories that has the key \<^verbatim>\<open>address\<close>.
  The arguments of \<^verbatim>\<open>get_feature_report\<close> are evaluated before the call:
  \<^verbatim>\<open>options['address']\<close> is found (it is a descriptor), \<^verbatim>\<open>options['bytes']\<close> raises
  \<^verbatim>\<open>KeyError\<close> unless there is a subcategory of that name as well, and then
  \<^verbatim>\<open>options['bytes'] + 1\<close> adds an integer to a dictionary and raises \<^verbatim>\<open>TypeError\<close>.
  No request reaches the device.
\<close>

definition read_mapping :: "(string \<times> descriptor) list \<Rightarrow> exn" where
  "read_mapping data =
     (if ''bytes'' \<in> set (map fst data) then TypeError else KeyError ''bytes'')"

text \<open>
  The loop of \<^verbatim>\<open>get\<close> over the categories, with the module-level \<^verbatim>\<open>structure\<close> as a
  parameter.  The \<^verbatim>\<open>try\<close> block encloses the whole body for one category; \<^verbatim>\<open>except
  IOError\<close> continues with the next category and any other exception leaves \<^verbatim>\<open>get\<close>.
  Line 123 sends a category to \<^verbatim>\<open>_read\<close> when \<^verbatim>\<open>'address' in data\<close>: that is every
  descriptor, and every dictionary of subcategories with a subcategory named
  \<^verbatim>\<open>address\<close>.
\<close>

fun get_loop :: "device \<Rightarrow> request list \<Rightarrow> schema \<Rightarrow> (string \<times> outval) list
     \<Rightarrow> (exn + (string \<times> outval) list) \<times> request list" where
  "get_loop dev h [] output = (Inr output, h)"
| "get_loop dev h ((category, Flat options) # rest) output =
    (case read dev h options 3 of
       (Inl e, h') \<Rightarrow> if is_IOError e then get_loop dev h' rest output else (Inl e, h')
     | (Inr v, h') \<Rightarrow> get_loop dev h' rest (dict_set output category (OVal v)))"
| "get_loop dev h ((category, Nested data) # rest) output =
    (if ''address'' \<in> set (map fst data) then
       (if is_IOError (read_mapping data) then get_loop dev h rest output
        else (Inl (read_mapping data), h))
     else
       (let output1 = dict_set output category (ODict []) in
        (case read_subcategories dev h data [] of
           (None, d, h') \<Rightarrow> get_loop dev h' rest (dict_set output1 category (ODict d))
         | (Some e, d, h') \<Rightarrow>
             if is_IOError e then get_loop dev h' rest (dict_set output1 category (ODict d))
             else (Inl e, h'))))"

definition get_for :: "device \<Rightarrow> request list \<Rightarrow> schema
     \<Rightarrow> (exn + (string \<times> outval) list) \<times> request list" where
  "get_for dev h sch = get_loop dev h sch []"

definition get :: "device \<Rightarrow> request list \<Rightarrow> (exn + (string \<times> outval) list) \<times> request list" where
  "get dev h = get_for dev h structure_dict"

subsection \<open>Conditions on descriptors, schemas and devices\<close>

text \<open>
  The byte count of a descriptor matches its format: one byte for a bit field, one or two
  for an integer, two for a scaled value.  Every descriptor of \<^verbatim>\<open>structure\<close> is so.
\<close>

definition width_ok :: "descriptor \<Rightarrow> bool" where
  "width_ok d =
    ((format d = ''b'' \<and> bytes d = 1)
     \<or> (format d = ''i'' \<and> (bytes d = 1 \<or> bytes d = 2))
     \<or> (format d = ''f'' \<and> bytes d = 2))"

text \<open>A bit field moreover has its list of flag names.\<close>

definition wf_descriptor :: "descriptor \<Rightarrow> bool" where
  "wf_descriptor d = (width_ok d \<and> (format d = ''b'' \<longrightarrow> keys d \<noteq> None))"

text \<open>A report is made of bytes.\<close>

definition byte_report :: "report \<Rightarrow> bool" where
  "byte_report report = list_all (\<lambda>b. b < 256) report"

text \<open>The device answers the same request the same way, whatever was asked before.\<close>

definition deterministic :: "device \<Rightarrow> bool" where
  "deterministic dev = (\<forall>h h' c. dev (h @ [c]) = dev (h' @ [c]))"

text \<open>
  Reading a descriptor always fails with an \<^verbatim>\<open>IOError\<close>, or always yields a value, at
  whatever point of the session it is read.
\<close>

definition always_fails :: "device \<Rightarrow> descriptor \<Rightarrow> bool" where
  "always_fails dev d = (\<forall>h. \<exists>m h'. read dev h d 3 = (Inl (IOError m), h'))"

definition always_succeeds :: "device \<Rightarrow> descriptor \<Rightarrow> bool" where
  "always_succeeds dev d = (\<forall>h. \<exists>v h'. read dev h d 3 = (Inr v, h'))"

subsection \<open>Example devices\<close>

text \<open>A device that never answers.\<close>

definition silent :: device where
  "silent h = []"

text \<open>A device that answers its fourth request, and every later one, with \<open>[52, 7]\<close>.\<close>

definition slow_start :: device where
  "slow_start h = (if length h < 4 then [] else [52, 7])"

text \<open>A device that answers every request with \<open>[52, 7]\<close>, whatever is asked.\<close>

definition stuck :: device where
  "stuck h = [52, 7]"

text \<open>A device that answers every request with one byte, the address asked for.\<close>

definition echo_only :: device where
  "echo_only h = [fst (last h)]"

text \<open>
  A device that answers every request in full, the address followed by bytes \<open>60\<close>, except
  that register \<open>a\<close> answers with one byte only, its address.
\<close>

definition short_at :: "nat \<Rightarrow> device" where
  "short_at a h =
     (case last h of (a', n) \<Rightarrow> if a' = a then [a'] else a' # replicate (n - 1) 60)"

text \<open>
  A device that answers every request in full, the address followed by bytes \<open>60\<close>, except
  that register \<open>a\<close> never answers.
\<close>

definition all_but :: "nat \<Rightarrow> device" where
  "all_but a h = (case last h of (a', n) \<Rightarrow> if a' = a then [] else a' # replicate (n - 1) 60)"


section \<open>Properties\<close>

subsection \<open>Reading one register\<close>


lemma read_nonempty:
  "dev (h @ [(address d, Suc (bytes d))]) \<noteq> [] \<Longrightarrow>
   read dev h d r = (decode d (dev (h @ [(address d, Suc (bytes d))])), h @ [(address d, Suc (bytes d))])"
  by (simp add: read.simps [of dev h d r] get_feature_report_def Let_def)

lemma read_empty_Suc:
  "dev (h @ [(address d, Suc (bytes d))]) = [] \<Longrightarrow>
   read dev h d (Suc r) = read dev (h @ [(address d, Suc (bytes d))]) d r"
  by (simp add: read.simps [of dev h d "Suc r"] get_feature_report_def Let_def)

lemma read_empty_0:
  "dev (h @ [(address d, Suc (bytes d))]) = [] \<Longrightarrow>
   read dev h d 0 = (Inl (IOError ''Did not receive data.''), h @ [(address d, Suc (bytes d))])"
  by (simp add: read.simps [of dev h d 0] get_feature_report_def Let_def)

lemma read_all_empty:
  "(\<forall>j\<le>r. dev (h @ replicate (Suc j) (address d, Suc (bytes d))) = []) \<Longrightarrow>
   read dev h d r = (Inl (IOError ''Did not receive data.''), h @ replicate (Suc r) (address d, Suc (bytes d)))"
proof (induction r arbitrary: h)
  case 0
  then show ?case using read_empty_0 [of dev h d] by simp
next
  case (Suc r)
  let ?c = "(address d, Suc (bytes d))"
  from Suc.prems have e: "dev (h @ [?c]) = []" by (metis le0 replicate_Suc replicate_0)
  have "\<forall>j\<le>r. dev ((h @ [?c]) @ replicate (Suc j) ?c) = []"
  proof (intro allI impI)
    fix j assume "j \<le> r"
    then have "Suc j \<le> Suc r" by simp
    with Suc.prems have "dev (h @ replicate (Suc (Suc j)) ?c) = []" by blast
    then show "dev ((h @ [?c]) @ replicate (Suc j) ?c) = []" by simp
  qed
  from Suc.IH [OF this] show ?case using read_empty_Suc [of dev h d r] e by simp
qed

lemma read_first_nonempty:
  "k \<le> r \<Longrightarrow> (\<forall>j<k. dev (h @ replicate (Suc j) (address d, Suc (bytes d))) = []) \<Longrightarrow>
   dev (h @ replicate (Suc k) (address d, Suc (bytes d))) \<noteq> [] \<Longrightarrow>
   read dev h d r = (decode d (dev (h @ replicate (Suc k) (address d, Suc (bytes d)))),
                     h @ replicate (Suc k) (address d, Suc (bytes d)))"
proof (induction k arbitrary: h r)
  case 0
  then show ?case using read_nonempty [of dev h d r] by simp
next
  case (Suc k)
  let ?c = "(address d, Suc (bytes d))"
  from Suc.prems obtain r' where r: "r = Suc r'" "k \<le> r'" by (cases r) auto
  from Suc.prems(2) have e: "dev (h @ [?c]) = []" by (metis zero_less_Suc replicate_Suc replicate_0)
  have a: "\<forall>j<k. dev ((h @ [?c]) @ replicate (Suc j) ?c) = []"
  proof (intro allI impI)
    fix j assume "j < k"
    then have "Suc j < Suc k" by simp
    with Suc.prems(2) have "dev (h @ replicate (Suc (Suc j)) ?c) = []" by blast
    then show "dev ((h @ [?c]) @ replicate (Suc j) ?c) = []" by simp
  qed
  have b: "dev ((h @ [?c]) @ replicate (Suc k) ?c) \<noteq> []" using Suc.prems(3) by simp
  from Suc.IH [OF r(2) a b] show ?case using read_empty_Suc [of dev h d r'] e by (simp add: r(1))
qed

lemma decode_mismatch:
  "report \<noteq> [] \<Longrightarrow> report ! 0 \<noteq> address d \<Longrightarrow>
   decode d report = Inl (IOError ''Received unexpected data.'')"
  by (auto simp: decode_def index_def)

lemma decode_succeeds:
  "wf_descriptor d \<Longrightarrow> bytes d + 1 \<le> length report \<Longrightarrow> report ! 0 = address d \<Longrightarrow>
   \<exists>v. decode d report = Inr v"
  by (auto simp: decode_def index_def wf_descriptor_def width_ok_def)


subsection \<open>Bit fields\<close>


text \<open>
  The digits printed are \<open>0\<close> and \<open>1\<close> only, so \<^verbatim>\<open>int(v)\<close> is defined on every character
  of the formatted string.
\<close>

lemma bin_digits: "set (bin n) \<subseteq> {CHR ''0'', CHR ''1''}"
proof (induction n rule: bin.induct)
  case (1 n)
  show ?case
  proof (cases "n < 2")
    case True
    then show ?thesis by (subst bin.simps) simp
  next
    case False
    with 1 have "set (bin (n div 2)) \<subseteq> {CHR ''0'', CHR ''1''}" by simp
    with False show ?thesis by (subst bin.simps) auto
  qed
qed

lemma format_08b_digits: "set (format_08b n) \<subseteq> {CHR ''0'', CHR ''1''}"
  using bin_digits [of n] by (auto simp: format_08b_def)

lemma bin_bound: "n < 2 ^ length (bin n)"
proof (induction n rule: bin.induct)
  case (1 n)
  show ?case
  proof (cases "n < 2")
    case True
    then show ?thesis by (subst bin.simps) simp
  next
    case False
    with 1 have "n div 2 < 2 ^ length (bin (n div 2))" by simp
    then have "n < 2 * 2 ^ length (bin (n div 2))" by linarith
    with False show ?thesis by (subst bin.simps) simp
  qed
qed

lemma bin_length_le: "n < 2 ^ k \<Longrightarrow> 0 < k \<Longrightarrow> length (bin n) \<le> k"
proof (induction n arbitrary: k rule: bin.induct)
  case (1 n)
  show ?case
  proof (cases "n < 2")
    case True
    with 1(3) show ?thesis by (subst bin.simps) simp
  next
    case False
    from 1(3) obtain k' where k: "k = Suc k'" by (cases k) auto
    with False 1(2) have "0 < k'" by (cases k') auto
    moreover from 1(2) k have "n div 2 < 2 ^ k'" by simp
    ultimately have "length (bin (n div 2)) \<le> k'" using 1(1) [OF False] by simp
    with False k show ?thesis by (subst bin.simps) simp
  qed
qed

lemma bool_of_digit_simps:
  "bool_of_digit CHR ''0'' = False" "bool_of_digit CHR ''1'' = True"
  by (simp_all add: bool_of_digit_def int_of_digit_def)

lemma bits_of_bin:
  "map bool_of_digit (rev (bin n)) = map (bit n) [0..<length (bin n)]"
proof (induction n rule: bin.induct)
  case (1 n)
  show ?case
  proof (cases "n < 2")
    case True
    then have "n = 0 \<or> n = 1" by auto
    then show ?thesis by (subst (1 2) bin.simps) (auto simp: bool_of_digit_simps bit_0)
  next
    case False
    let ?m = "length (bin (n div 2))"
    have b: "bin n = bin (n div 2) @ [if n mod 2 = 0 then CHR ''0'' else CHR ''1'']"
      using False by (subst bin.simps) simp
    have "map (bit n) [0..<Suc ?m] = bit n 0 # map (bit n \<circ> Suc) [0..<?m]"
      by (simp only: upt_conv_Cons [OF zero_less_Suc] map_Suc_upt [symmetric] list.map map_map)
    also have "bit n \<circ> Suc = bit (n div 2)" by (auto simp: bit_Suc fun_eq_iff)
    also have "map (bit (n div 2)) [0..<?m] = map bool_of_digit (rev (bin (n div 2)))"
      using 1 [OF False] by simp
    finally show ?thesis
      by (simp add: b bool_of_digit_simps bit_0 del: upt_Suc) presburger
  qed
qed

lemma bit_beyond_bin: "length (bin n) \<le> i \<Longrightarrow> \<not> bit n i"
proof -
  assume "length (bin n) \<le> i"
  then have "(2::nat) ^ length (bin n) \<le> 2 ^ i" by simp
  with bin_bound [of n] have "n < 2 ^ i" by linarith
  then show ?thesis by (simp add: bit_iff_odd)
qed

lemma bits_of_format_08b:
  assumes "n < 256"
  shows "map bool_of_digit (rev (format_08b n)) = map (bit n) [0..<8]"
proof -
  let ?m = "length (bin n)"
  from assms have m: "?m \<le> 8" using bin_length_le [of n 8] by simp
  have "map (bit n) [0..<8] = map (bit n) ([0..<?m] @ [?m..<8])"
    using m upt_add_eq_append [of 0 ?m "8 - ?m"] by simp
  also have "\<dots> = map (bit n) [0..<?m] @ map (\<lambda>_. False) [?m..<8]"
    by (simp add: bit_beyond_bin)
  also have "\<dots> = map (bit n) [0..<?m] @ replicate (8 - ?m) False"
    by (simp add: map_replicate_const)
  finally show ?thesis
    by (simp add: format_08b_def bits_of_bin bool_of_digit_simps)
qed

lemma dict_set_fresh: "k \<notin> fst ` set d \<Longrightarrow> dict_set d k v = d @ [(k, v)]"
  by (induction d) auto

lemma foldl_dict_set_distinct:
  "distinct (map fst (d @ ps)) \<Longrightarrow> foldl (\<lambda>d (k, v). dict_set d k v) d ps = d @ ps"
proof (induction ps arbitrary: d)
  case Nil
  then show ?case by simp
next
  case (Cons p ps)
  obtain k v where p: "p = (k, v)" by (cases p)
  from Cons.prems have "k \<notin> fst ` set d" by (auto simp: p)
  then have s: "dict_set d k v = d @ [(k, v)]" by (rule dict_set_fresh)
  from Cons.prems have "distinct (map fst ((d @ [(k, v)]) @ ps))" by (simp add: p)
  from Cons.IH [OF this] show ?case by (simp add: p s)
qed

lemma dict_of_pairs_distinct: "distinct (map fst ps) \<Longrightarrow> dict_of_pairs ps = ps"
  using foldl_dict_set_distinct [of "[]" ps] by (simp add: dict_of_pairs_def)

lemma decode_flags:
  assumes "format d = ''b''" "keys d = Some ks" "2 \<le> length report"
    "report ! 0 = address d" "report ! 1 < 256"
  shows "decode d report =
    Inr (VFlags (dict_of_pairs (zip ks (map (bit (report ! 1)) [0..<8]))))"
proof -
  have "map (\<lambda>(k, v). (k, bool_of_digit v)) (zip ks (rev (format_08b (report ! 1))))
        = zip ks (map bool_of_digit (rev (format_08b (report ! 1))))"
    by (simp add: zip_map2)
  moreover from assms have "report \<noteq> []" by auto
  ultimately show ?thesis using assms
    by (simp add: decode_def index_def bits_of_format_08b)
qed



subsection \<open>Claims about the register reader\<close>

text \<open>
  Claim C4.  An empty report is retried with a fresh request, three more times at most.  If
  all four requests for a descriptor come back empty, \<^verbatim>\<open>_read\<close> raises the
  \<^verbatim>\<open>IOError\<close> ``Did not receive data.'' after exactly four requests.  If the first
  \<open>k \<le> 3\<close> requests come back empty and the next one brings a frame of the right
  length that echoes the address, \<^verbatim>\<open>_read\<close> returns the decoded frame after exactly
  \<open>k + 1\<close> requests; \<open>k = 3\<close> is the case of three empty reports and a frame on the
  fourth request.
\<close>

theorem read_retry_bound:
  "((\<forall>j<4. dev (h @ replicate (Suc j) (address d, bytes d + 1)) = []) \<longrightarrow>
      read dev h d 3 =
        (Inl (IOError ''Did not receive data.''), h @ replicate 4 (address d, bytes d + 1)))
   \<and> (k \<le> 3 \<and> (\<forall>j<k. dev (h @ replicate (Suc j) (address d, bytes d + 1)) = [])
        \<and> dev (h @ replicate (Suc k) (address d, bytes d + 1)) = frame
        \<and> wf_descriptor d \<and> length frame = bytes d + 1 \<and> frame ! 0 = address d \<longrightarrow>
      read dev h d 3 = (decode d frame, h @ replicate (Suc k) (address d, bytes d + 1))
      \<and> (\<exists>v. decode d frame = Inr v))"
proof (intro conjI impI)
  assume "\<forall>j<4. dev (h @ replicate (Suc j) (address d, bytes d + 1)) = []"
  then have "\<forall>j\<le>3. dev (h @ replicate (Suc j) (address d, Suc (bytes d))) = []"
    by (simp add: less_Suc_eq_le [symmetric] eval_nat_numeral del: replicate_Suc)
  from read_all_empty [OF this]
  show "read dev h d 3 =
    (Inl (IOError ''Did not receive data.''), h @ replicate 4 (address d, bytes d + 1))"
    by (simp add: eval_nat_numeral)
next
  assume a: "k \<le> 3 \<and> (\<forall>j<k. dev (h @ replicate (Suc j) (address d, bytes d + 1)) = [])
        \<and> dev (h @ replicate (Suc k) (address d, bytes d + 1)) = frame
        \<and> wf_descriptor d \<and> length frame = bytes d + 1 \<and> frame ! 0 = address d"
  then have k: "k \<le> 3" and e: "\<forall>j<k. dev (h @ replicate (Suc j) (address d, Suc (bytes d))) = []"
    and f: "dev (h @ replicate (Suc k) (address d, Suc (bytes d))) = frame"
    by (simp_all del: replicate_Suc)
  from a have "frame \<noteq> []" by auto
  with f have n: "dev (h @ replicate (Suc k) (address d, Suc (bytes d))) \<noteq> []" by simp
  from read_first_nonempty [OF k e n] f
  show "read dev h d 3 = (decode d frame, h @ replicate (Suc k) (address d, bytes d + 1))"
    by (simp del: replicate_Suc)
  from a show "\<exists>v. decode d frame = Inr v"
    using decode_succeeds [where d = d and report = frame] by simp
qed

theorem read_retry_bound_witness:
  "read silent [] (reg 52 1 ''i'') 3 =
     (Inl (IOError ''Did not receive data.''), replicate 4 (52, 2))
   \<and> read slow_start [] (reg 52 1 ''i'') 3 = (Inr (VInt 7), replicate 4 (52, 2))"
proof -
  have 1: "\<forall>j<4. silent ([] @ replicate (Suc j) (address (reg 52 1 ''i''), bytes (reg 52 1 ''i'') + 1)) = []"
    by (simp add: silent_def)
  have 2: "(3::nat) \<le> 3 \<and> (\<forall>j<3. slow_start ([] @ replicate (Suc j) (address (reg 52 1 ''i''), bytes (reg 52 1 ''i'') + 1)) = [])
        \<and> slow_start ([] @ replicate (Suc 3) (address (reg 52 1 ''i''), bytes (reg 52 1 ''i'') + 1)) = [52, 7]
        \<and> wf_descriptor (reg 52 1 ''i'') \<and> length [52, 7 :: nat] = bytes (reg 52 1 ''i'') + 1
        \<and> [52, 7] ! 0 = address (reg 52 1 ''i'')"
    by (auto simp: slow_start_def reg_def wf_descriptor_def width_ok_def)
  have 3: "decode (reg 52 1 ''i'') [52, 7] = Inr (VInt 7)"
    by (simp add: decode_def index_def reg_def)
  from read_retry_bound [where dev = silent and h = "[]" and d = "reg 52 1 ''i''"] 1
  have a: "read silent [] (reg 52 1 ''i'') 3 =
     (Inl (IOError ''Did not receive data.''), replicate 4 (52, 2))"
    by (simp add: reg_def)
  from read_retry_bound [where dev = slow_start and h = "[]" and d = "reg 52 1 ''i''" and k = 3
      and frame = "[52, 7]"] 2 3
  have b: "read slow_start [] (reg 52 1 ''i'') 3 = (Inr (VInt 7), replicate 4 (52, 2))"
    by (simp add: reg_def)
  from a b show ?thesis by simp
qed

text \<open>
  Claim C5.  A non-empty report whose first byte differs from the address of the
  descriptor makes \<^verbatim>\<open>_read\<close> raise the \<^verbatim>\<open>IOError\<close> ``Received unexpected data.'',
  whatever the rest of the report holds and whatever the number of retries left; the
  history grows by exactly one request, so nothing is retried.
\<close>

theorem read_framing_mismatch:
  "dev (h @ [(address d, bytes d + 1)]) = report \<Longrightarrow> report \<noteq> [] \<Longrightarrow>
   report ! 0 \<noteq> address d \<Longrightarrow>
   read dev h d retries =
     (Inl (IOError ''Received unexpected data.''), h @ [(address d, bytes d + 1)])"
  using read_nonempty [where dev = dev and h = h and d = d and r = retries]
    decode_mismatch [where report = report and d = d] by simp

theorem read_framing_mismatch_witness:
  "read stuck [] (reg 53 2 ''i'') 3 =
     (Inl (IOError ''Received unexpected data.''), [(53, 3)])"
proof -
  let ?d = "reg 53 2 ''i''"
  have "read stuck [] ?d 3 =
     (Inl (IOError ''Received unexpected data.''), [] @ [(address ?d, bytes ?d + 1)])"
    by (rule read_framing_mismatch [where report = "[52, 7]"])
       (simp_all add: stuck_def reg_def)
  then show ?thesis by (simp add: reg_def)
qed



subsection \<open>Claims about decoding\<close>

lemma zip_upt_nth:
  "length ks \<le> n \<Longrightarrow> zip ks (map f [0..<n]) = map (\<lambda>i. (ks ! i, f i)) [0..<length ks]"
  by (rule nth_equalityI) auto

lemma distinct_zip_keys: "distinct ks \<Longrightarrow> distinct (map fst (zip ks xs))"
  by (simp add: map_fst_zip_take)

text \<open>
  Claim C6, as stated, promises one boolean per flag name for every bit field.  The
  reversed string of binary digits has eight characters and \<^verbatim>\<open>zip\<close> stops at the
  shorter argument: with nine flag names and the report \<open>[50, 3]\<close> the result has eight
  entries and the ninth name, \<open>i\<close>, has none.
\<close>

theorem decode_bitfield_counterexample:
  "decode \<lparr>address = 50, bytes = 1, format = ''b'',
      keys = Some [''a'', ''b'', ''c'', ''d'', ''e'', ''f'', ''g'', ''h'', ''i'']\<rparr> [50, 3]
   = Inr (VFlags [(''a'', True), (''b'', True), (''c'', False), (''d'', False),
                  (''e'', False), (''f'', False), (''g'', False), (''h'', False)])"
  by code_simp

text \<open>
  Claim C6, amended.  For a bit field with at most eight flag names, all different, and a
  report of at least two bytes that echoes the address and whose byte at offset 1 is below
  256, the result maps the \<open>i\<close>-th flag name to bit \<open>i\<close> of that byte (bit 0 the least
  significant), one entry per flag name, in the order of the flag names; the bits from
  position \<open>length ks\<close> on are ignored.  The witness is the example of the claim: the byte
  \<open>0b00000011\<close> against the names \<open>a\<close>, \<open>b\<close>, \<open>c\<close>.
\<close>

theorem decode_bitfield:
  assumes "format d = ''b''" and "keys d = Some ks" and "distinct ks" and "length ks \<le> 8"
    and "2 \<le> length report" and "report ! 0 = address d" and "report ! 1 < 256"
  shows "decode d report =
    Inr (VFlags (map (\<lambda>i. (ks ! i, bit (report ! 1) i)) [0..<length ks]))"
proof -
  have "dict_of_pairs (zip ks (map (bit (report ! 1)) [0..<8]))
        = zip ks (map (bit (report ! 1)) [0..<8])"
    using assms(3) by (intro dict_of_pairs_distinct distinct_zip_keys)
  with decode_flags [OF assms(1,2,5,6,7)] zip_upt_nth [OF assms(4)] show ?thesis
    by simp
qed

theorem decode_bitfield_witness:
  "decode \<lparr>address = 50, bytes = 1, format = ''b'', keys = Some [''a'', ''b'', ''c'']\<rparr> [50, 3]
   = Inr (VFlags [(''a'', True), (''b'', True), (''c'', False)])"
proof -
  let ?d = "\<lparr>address = 50, bytes = 1, format = ''b'', keys = Some [''a'', ''b'', ''c'']\<rparr>"
  have "decode ?d [50, 3] =
    Inr (VFlags (map (\<lambda>i. ([''a'', ''b'', ''c''] ! i, bit ([50, 3 :: nat] ! 1) i))
      [0..<length [''a'', ''b'', ''c'']]))"
    by (rule decode_bitfield) simp_all
  then show ?thesis by (simp add: upt_rec bit_0 bit_Suc numeral_3_eq_3)
qed

text \<open>
  Claim C10, as stated, counts \<open>min (length ks) 8\<close> entries for every bit field.  The
  result is a dictionary, so a flag name that occurs twice gets one entry, holding the
  later bit: two flag names \<open>a\<close>, \<open>a\<close> and the byte \<open>1\<close> give the single entry
  \<open>a: False\<close>.
\<close>

theorem bitfield_entry_count_counterexample:
  "decode \<lparr>address = 50, bytes = 1, format = ''b'', keys = Some [''a'', ''a'']\<rparr> [50, 1]
   = Inr (VFlags [(''a'', False)])"
  by code_simp

text \<open>
  Claim C10, amended.  For a bit field whose flag names are all different, and a report of
  at least two bytes that echoes the address and whose byte at offset 1 is below 256, the
  result has exactly \<open>min (length ks) 8\<close> entries, and its keys are the first eight flag
  names (all of them when there are fewer): a name beyond the eighth never appears.
\<close>

theorem bitfield_entry_count:
  assumes "format d = ''b''" and "keys d = Some ks" and "distinct ks"
    and "2 \<le> length report" and "report ! 0 = address d" and "report ! 1 < 256"
  shows "\<exists>flags. decode d report = Inr (VFlags flags)
           \<and> length flags = min (length ks) 8 \<and> map fst flags = take 8 ks"
proof -
  let ?flags = "zip ks (map (bit (report ! 1)) [0..<8])"
  have "dict_of_pairs ?flags = ?flags"
    using assms(3) by (intro dict_of_pairs_distinct distinct_zip_keys)
  with decode_flags [OF assms(1,2,4,5,6)] have "decode d report = Inr (VFlags ?flags)"
    by simp
  moreover have "length ?flags = min (length ks) 8" by simp
  moreover have "map fst ?flags = take 8 ks" by (simp add: map_fst_zip_take min_def)
  ultimately show ?thesis by blast
qed

theorem bitfield_entry_count_witness:
  "\<exists>flags. decode \<lparr>address = 50, bytes = 1, format = ''b'',
        keys = Some [''a'', ''b'', ''c'', ''d'', ''e'', ''f'', ''g'', ''h'', ''i'']\<rparr> [50, 3]
      = Inr (VFlags flags)
    \<and> length flags = 8
    \<and> map fst flags = [''a'', ''b'', ''c'', ''d'', ''e'', ''f'', ''g'', ''h'']"
  using bitfield_entry_count [where d = "\<lparr>address = 50, bytes = 1, format = ''b'',
        keys = Some [''a'', ''b'', ''c'', ''d'', ''e'', ''f'', ''g'', ''h'', ''i'']\<rparr>"
      and report = "[50, 3]"
      and ks = "[''a'', ''b'', ''c'', ''d'', ''e'', ''f'', ''g'', ''h'', ''i'']"]
  by (simp add: eval_nat_numeral)

text \<open>
  Claim C7.  For a report of bytes that echoes the address and has at least
  \<open>bytes d + 1\<close> elements: format \<open>i\<close> with one byte yields the byte at offset 1, at most
  255; format \<open>i\<close> with two bytes yields \<open>report[1] + (report[2] << 8)\<close>, at most 65535;
  format \<open>f\<close> yields that number divided by ten, which is not negative.  The report
  \<open>[0x30, 0x05, 0x00]\<close> against a descriptor of format \<open>f\<close> at address \<open>0x30\<close> yields
  \<open>0.5\<close>.
\<close>

theorem decode_numbers:
  assumes "report ! 0 = address d" and "bytes d + 1 \<le> length report" and "byte_report report"
  shows "(format d = ''i'' \<and> bytes d = 1 \<longrightarrow>
            decode d report = Inr (VInt (report ! 1)) \<and> report ! 1 \<le> 255)
       \<and> (format d = ''i'' \<and> bytes d = 2 \<longrightarrow>
            decode d report = Inr (VInt (report ! 1 + push_bit 8 (report ! 2)))
            \<and> report ! 1 + push_bit 8 (report ! 2) \<le> 65535)
       \<and> (format d = ''f'' \<and> bytes d = 2 \<longrightarrow>
            decode d report = Inr (VFloat (real (report ! 1 + push_bit 8 (report ! 2)) / 10))
            \<and> 0 \<le> real (report ! 1 + push_bit 8 (report ! 2)) / 10)
       \<and> decode (reg 48 2 ''f'') [48, 5, 0] = Inr (VFloat 0.5)"
proof -
  have b: "i < length report \<Longrightarrow> report ! i \<le> 255" for i
    using assms(3) by (fastforce simp: byte_report_def list_all_length)
  have 1: "format d = ''i'' \<and> bytes d = 1 \<longrightarrow>
            decode d report = Inr (VInt (report ! 1)) \<and> report ! 1 \<le> 255"
    using assms(1,2) b [of 1] by (auto simp: decode_def index_def)
  have w: "bytes d = 2 \<Longrightarrow> report ! 1 + push_bit 8 (report ! 2) \<le> 65535"
    using assms(2) b [of 1] b [of 2] by (simp add: push_bit_eq_mult)
  have 2: "format d = ''i'' \<and> bytes d = 2 \<longrightarrow>
            decode d report = Inr (VInt (report ! 1 + push_bit 8 (report ! 2)))
            \<and> report ! 1 + push_bit 8 (report ! 2) \<le> 65535"
    using assms(1,2) w by (auto simp: decode_def index_def)
  have 3: "format d = ''f'' \<and> bytes d = 2 \<longrightarrow>
            decode d report = Inr (VFloat (real (report ! 1 + push_bit 8 (report ! 2)) / 10))
            \<and> 0 \<le> real (report ! 1 + push_bit 8 (report ! 2)) / 10"
    using assms(1,2) by (auto simp: decode_def index_def add.commute)
  have 4: "decode (reg 48 2 ''f'') [48, 5, 0] = Inr (VFloat 0.5)"
    by (simp add: decode_def index_def reg_def)
  from 1 2 3 4 show ?thesis by blast
qed

theorem decode_numbers_witness:
  "decode (reg 52 1 ''i'') [52, 200] = Inr (VInt 200)
   \<and> decode (reg 3 2 ''i'') [3, 44, 1] = Inr (VInt 300)
   \<and> decode (reg 24 2 ''f'') [24, 181, 4] = Inr (VFloat 120.5)"
proof -
  have a: "decode (reg 52 1 ''i'') [52, 200] = Inr (VInt 200)"
    using decode_numbers [where d = "reg 52 1 ''i''" and report = "[52, 200]"]
    by (simp add: reg_def byte_report_def)
  have b: "decode (reg 3 2 ''i'') [3, 44, 1] = Inr (VInt 300)"
    using decode_numbers [where d = "reg 3 2 ''i''" and report = "[3, 44, 1]"]
    by (simp add: reg_def byte_report_def push_bit_eq_mult)
  have c: "decode (reg 24 2 ''f'') [24, 181, 4] = Inr (VFloat 120.5)"
    using decode_numbers [where d = "reg 24 2 ''f''" and report = "[24, 181, 4]"]
    by (simp add: reg_def byte_report_def push_bit_eq_mult)
  from a b c show ?thesis by simp
qed



subsection \<open>Claims about the snapshot builder\<close>

lemma dict_set_twice: "dict_set (dict_set d k v) k w = dict_set d k w"
  by (induction d) auto

lemma keys_dict_set: "fst ` set (dict_set d k v) = insert k (fst ` set d)"
  by (induction d k v rule: dict_set.induct) (simp_all add: insert_commute insert_absorb)

lemma map_of_dict_set: "map_of (dict_set d k v) = (map_of d)(k \<mapsto> v)"
  by (induction d) (auto simp: fun_eq_iff)

lemma read_subcategories_append:
  "read_subcategories dev h (pre @ post) acc =
    (case read_subcategories dev h pre acc of
       (None, d, h1) \<Rightarrow> read_subcategories dev h1 post d
     | (Some e, d, h1) \<Rightarrow> (Some e, d, h1))"
proof (induction pre arbitrary: h acc)
  case Nil
  then show ?case by simp
next
  case (Cons p pre)
  obtain s d where p: "p = (s, d)" by (cases p)
  obtain r h' where r: "read dev h d 3 = (r, h')" by (cases "read dev h d 3")
  show ?case
  proof (cases r)
    case (Inl e)
    with r show ?thesis by (simp add: p)
  next
    case (Inr v)
    with r Cons.IH [of h' "dict_set acc s v"] show ?thesis by (simp add: p)
  qed
qed

lemma read_subcategories_keys:
  "read_subcategories dev h data acc = (None, d, h1) \<Longrightarrow>
   fst ` set d = fst ` set acc \<union> fst ` set data"
proof (induction data arbitrary: h acc)
  case Nil
  then show ?case by simp
next
  case (Cons p data)
  obtain s o' where p: "p = (s, o')" by (cases p)
  obtain r h' where r: "read dev h o' 3 = (r, h')" by (cases "read dev h o' 3")
  show ?case
  proof (cases r)
    case (Inl e)
    with r Cons.prems show ?thesis by (simp add: p)
  next
    case (Inr v)
    with r Cons.prems have "read_subcategories dev h' data (dict_set acc s v) = (None, d, h1)"
      by (simp add: p)
    from Cons.IH [OF this] show ?thesis by (auto simp: p keys_dict_set)
  qed
qed

lemma get_loop_keeps:
  "get_loop dev h sch out = (Inr snapshot, h') \<Longrightarrow> c \<notin> fst ` set sch \<Longrightarrow>
   map_of snapshot c = map_of out c"
proof (induction sch arbitrary: h out)
  case Nil
  then show ?case by simp
next
  case (Cons p sch)
  obtain category e where p: "p = (category, e)" by (cases p)
  from Cons.prems(2) have c: "c \<noteq> category" "c \<notin> fst ` set sch" by (auto simp: p)
  show ?case
  proof (cases e)
    case (Flat options)
    obtain r h1 where r: "read dev h options 3 = (r, h1)" by (cases "read dev h options 3")
    show ?thesis
    proof (cases r)
      case (Inl x)
      with r Cons.prems(1) have "get_loop dev h1 sch out = (Inr snapshot, h')"
        by (simp add: p Flat split: if_splits)
      from Cons.IH [OF this c(2)] show ?thesis .
    next
      case (Inr v)
      with r Cons.prems(1)
      have "get_loop dev h1 sch (dict_set out category (OVal v)) = (Inr snapshot, h')"
        by (simp add: p Flat)
      from Cons.IH [OF this c(2)] c(1) show ?thesis by (simp add: map_of_dict_set)
    qed
  next
    case (Nested data)
    obtain x d h1 where r: "read_subcategories dev h data [] = (x, d, h1)"
      by (cases "read_subcategories dev h data []")
    let ?out = "dict_set (dict_set out category (ODict [])) category (ODict d)"
    from r Cons.prems(1) have "get_loop dev h1 sch ?out = (Inr snapshot, h')"
      by (simp add: p Nested Let_def read_mapping_def split: option.splits if_splits)
    from Cons.IH [OF this c(2)] c(1) show ?thesis by (simp add: map_of_dict_set)
  qed
qed


text \<open>
  Claim C1, as stated, has every subcategory of a nested category attempted, whatever
  happens to the others.  The \<^verbatim>\<open>try\<close> block of \<^verbatim>\<open>get\<close> encloses the whole inner loop, so
  the first \<^verbatim>\<open>IOError\<close> ends the category.  With the \<^verbatim>\<open>config\<close> category of
  \<^verbatim>\<open>structure\<close> and a device whose register 48 (\<^verbatim>\<open>voltage\<close>) never answers, the only
  requests made are the four for register 48: \<^verbatim>\<open>frequency\<close> and \<^verbatim>\<open>power\<close> are never
  asked for and are missing from the snapshot, although reading \<^verbatim>\<open>frequency\<close> at that
  point yields 60.
\<close>

theorem nested_category_counterexample:
  "get_for (all_but 48) []
     [(''config'', Nested [(''voltage'', reg 48 1 ''i''), (''frequency'', reg 2 1 ''i''),
                           (''power'', reg 3 2 ''i'')])]
     = (Inr [(''config'', ODict [])], [(48, 2), (48, 2), (48, 2), (48, 2)])
   \<and> fst (read (all_but 48) [(48, 2), (48, 2), (48, 2), (48, 2)] (reg 2 1 ''i'') 3)
       = Inr (VInt 60)"
  by code_simp

text \<open>
  Claim C1, amended.  In a nested category, none of whose subcategories is named
  \<^verbatim>\<open>address\<close>, the subcategories are read in order up to the first one whose read raises
  an \<^verbatim>\<open>IOError\<close>.  If the subcategories \<open>pre\<close> are read
  and give the dictionary \<open>d\<close>, and the next one fails, then \<^verbatim>\<open>get\<close> goes on with the
  next category from the history left by the failed read, whatever subcategories \<open>post\<close>
  follow: they are not attempted.  The keys of \<open>d\<close> are the names in \<open>pre\<close>, and the
  category is present in the snapshot with the value \<open>d\<close> (provided no later category has
  the same name, as in a dictionary); with \<open>pre\<close> empty, that is when the first
  subcategory fails, it is present as an empty dictionary.
\<close>

theorem nested_category_stops_at_first_failure:
  assumes "''address'' \<notin> set (map fst (pre @ (subcategory, options) # post))"
    and "read_subcategories dev h pre [] = (None, d, h1)"
    and "read dev h1 options 3 = (Inl (IOError m), h2)"
  shows "get_loop dev h ((category, Nested (pre @ (subcategory, options) # post)) # rest) output
           = get_loop dev h2 rest (dict_set output category (ODict d))
       \<and> fst ` set d = fst ` set pre
       \<and> (\<forall>snapshot h3. category \<notin> fst ` set rest
             \<and> get_loop dev h ((category, Nested (pre @ (subcategory, options) # post)) # rest)
                   output = (Inr snapshot, h3)
             \<longrightarrow> map_of snapshot category = Some (ODict d))"
proof -
  have s: "read_subcategories dev h (pre @ (subcategory, options) # post) []
             = (Some (IOError m), d, h2)"
    using assms(2,3) by (simp add: read_subcategories_append)
  with assms(1)
  have 1: "get_loop dev h ((category, Nested (pre @ (subcategory, options) # post)) # rest)
      output = get_loop dev h2 rest (dict_set output category (ODict d))"
    by (simp add: dict_set_twice)
  have 2: "fst ` set d = fst ` set pre"
    using read_subcategories_keys [OF assms(2)] by simp
  have 3: "map_of snapshot category = Some (ODict d)"
    if "category \<notin> fst ` set rest"
      and "get_loop dev h ((category, Nested (pre @ (subcategory, options) # post)) # rest)
             output = (Inr snapshot, h3)"
    for snapshot h3
  proof -
    from that(2) 1
    have "get_loop dev h2 rest (dict_set output category (ODict d)) = (Inr snapshot, h3)"
      by simp
    from get_loop_keeps [OF this that(1)] show ?thesis by (simp add: map_of_dict_set)
  qed
  from 1 2 3 show ?thesis by blast
qed


theorem nested_category_stops_at_first_failure_witness:
  "get_loop (all_but 2) []
     [(''config'', Nested [(''voltage'', reg 48 1 ''i''), (''frequency'', reg 2 1 ''i''),
                           (''power'', reg 3 2 ''i'')]),
      (''health'', Flat (reg 52 1 ''i''))] []
   = (Inr [(''config'', ODict [(''voltage'', VInt 60)]), (''health'', OVal (VInt 60))],
      [(48, 2), (2, 2), (2, 2), (2, 2), (2, 2), (52, 2)])"
proof -
  let ?h2 = "[(48, 2), (2, 2), (2, 2), (2, 2), (2, 2)] :: request list"
  let ?rest = "[(''health'', Flat (reg 52 1 ''i''))]"
  have n: "''address'' \<notin> set (map fst ([(''voltage'', reg 48 1 ''i'')]
             @ (''frequency'', reg 2 1 ''i'') # [(''power'', reg 3 2 ''i'')]))"
    by simp
  have a: "read_subcategories (all_but 2) [] [(''voltage'', reg 48 1 ''i'')] []
             = (None, [(''voltage'', VInt 60)], [(48, 2)])"
    by code_simp
  have b: "read (all_but 2) [(48, 2)] (reg 2 1 ''i'') 3
             = (Inl (IOError ''Did not receive data.''), ?h2)"
    by code_simp
  have c: "get_loop (all_but 2) ?h2 ?rest (dict_set [] ''config'' (ODict [(''voltage'', VInt 60)]))
             = (Inr [(''config'', ODict [(''voltage'', VInt 60)]), (''health'', OVal (VInt 60))],
                [(48, 2), (2, 2), (2, 2), (2, 2), (2, 2), (52, 2)])"
    by code_simp
  have "get_loop (all_but 2) []
          ((''config'', Nested ([(''voltage'', reg 48 1 ''i'')] @ (''frequency'', reg 2 1 ''i'')
              # [(''power'', reg 3 2 ''i'')])) # ?rest) []
        = get_loop (all_but 2) ?h2 ?rest (dict_set [] ''config'' (ODict [(''voltage'', VInt 60)]))"
    using nested_category_stops_at_first_failure [OF n a b] by blast
  also note c
  finally show ?thesis by (simp only: append_Cons append_Nil)
qed



lemma read_deterministic:
  assumes "deterministic dev"
  shows "fst (read dev h d r) = fst (read dev h' d r)"
proof (induction r arbitrary: h h')
  case 0
  let ?c = "(address d, Suc (bytes d))"
  from assms have e: "dev (h @ [?c]) = dev (h' @ [?c])" unfolding deterministic_def by blast
  show ?case
  proof (cases "dev (h @ [?c]) = []")
    case True
    with e read_empty_0 [of dev h d] read_empty_0 [of dev h' d] show ?thesis by simp
  next
    case False
    with e read_nonempty [where dev = dev and h = h and d = d and r = 0]
      read_nonempty [where dev = dev and h = h' and d = d and r = 0]
    show ?thesis by simp
  qed
next
  case (Suc r)
  let ?c = "(address d, Suc (bytes d))"
  from assms have e: "dev (h @ [?c]) = dev (h' @ [?c])" unfolding deterministic_def by blast
  show ?case
  proof (cases "dev (h @ [?c]) = []")
    case True
    with e read_empty_Suc [of dev h d r] read_empty_Suc [of dev h' d r]
      Suc.IH [where h = "h @ [?c]" and h' = "h' @ [?c]"]
    show ?thesis by simp
  next
    case False
    with e read_nonempty [where dev = dev and h = h and d = d and r = "Suc r"]
      read_nonempty [where dev = dev and h = h' and d = d and r = "Suc r"]
    show ?thesis by simp
  qed
qed

lemma read_subcategories_deterministic:
  assumes "deterministic dev"
  shows "fst (read_subcategories dev h data acc) = fst (read_subcategories dev h' data acc)
       \<and> fst (snd (read_subcategories dev h data acc))
           = fst (snd (read_subcategories dev h' data acc))"
proof (induction data arbitrary: h h' acc)
  case Nil
  then show ?case by simp
next
  case (Cons p data)
  obtain s d where p: "p = (s, d)" by (cases p)
  obtain r h1 where r: "read dev h d 3 = (r, h1)" by (cases "read dev h d 3")
  obtain r' h1' where r': "read dev h' d 3 = (r', h1')" by (cases "read dev h' d 3")
  from read_deterministic [OF assms, where h = h and d = d and r = 3 and h' = h'] r r' have e: "r' = r" by simp
  show ?case
  proof (cases r)
    case (Inl x)
    with r r' e show ?thesis by (simp add: p)
  next
    case (Inr v)
    with r r' e Cons.IH [where h = h1 and h' = h1' and acc = "dict_set acc s v"] show ?thesis by (simp add: p)
  qed
qed

lemma get_loop_deterministic:
  assumes "deterministic dev"
  shows "fst (get_loop dev h sch out) = fst (get_loop dev h' sch out)"
proof (induction sch arbitrary: h h' out)
  case Nil
  then show ?case by simp
next
  case (Cons p sch)
  obtain category e where p: "p = (category, e)" by (cases p)
  show ?case
  proof (cases e)
    case (Flat d)
    obtain r h1 where r: "read dev h d 3 = (r, h1)" by (cases "read dev h d 3")
    obtain r' h1' where r': "read dev h' d 3 = (r', h1')" by (cases "read dev h' d 3")
    from read_deterministic [OF assms, where h = h and d = d and r = 3 and h' = h'] r r' have e: "r' = r" by simp
    show ?thesis
    proof (cases r)
      case (Inl x)
      with r r' e Cons.IH [where h = h1 and h' = h1' and out = out] show ?thesis by (simp add: p Flat)
    next
      case (Inr v)
      with r r' e Cons.IH [where h = h1 and h' = h1' and out = "dict_set out category (OVal v)"] show ?thesis
        by (simp add: p Flat)
    qed
  next
    case (Nested data)
    obtain x d h1 where r: "read_subcategories dev h data [] = (x, d, h1)"
      by (cases "read_subcategories dev h data []")
    obtain x' d' h1' where r': "read_subcategories dev h' data [] = (x', d', h1')"
      by (cases "read_subcategories dev h' data []")
    from read_subcategories_deterministic [OF assms, where h = h and data = data and acc = "[]" and h' = h'] r r'
    have e: "x' = x" "d' = d" by simp_all
    let ?out = "dict_set (dict_set out category (ODict [])) category (ODict d)"
    from r r' e Cons.IH [where h = h1 and h' = h1' and out = ?out] show ?thesis
      by (simp add: p Nested Let_def read_mapping_def split: option.splits)
  qed
qed

text \<open>
  Claim C9.  Against a device that answers the same request the same way whatever was
  asked before, a second call of \<^verbatim>\<open>get\<close>, made from the history the first call left
  behind, returns what the first call returned: \<^verbatim>\<open>get\<close> starts from an empty dictionary
  each time and keeps nothing between calls.
\<close>

theorem get_idempotent:
  "deterministic dev \<Longrightarrow>
   fst (get_for dev (snd (get_for dev h sch)) sch) = fst (get_for dev h sch)"
  unfolding get_for_def by (rule get_loop_deterministic)

lemma deterministic_all_but: "deterministic (all_but a)"
  by (simp add: deterministic_def all_but_def)

theorem get_idempotent_witness:
  "fst (get (all_but 2) (snd (get (all_but 2) []))) = fst (get (all_but 2) [])"
  unfolding get_def using get_idempotent [OF deterministic_all_but] .

lemma get_loop_flat:
  assumes "\<forall>(c, d)\<in>set cats. if ok c then always_succeeds dev d else always_fails dev d"
  shows "distinct (map fst out @ map fst cats) \<Longrightarrow>
    \<exists>new. fst (get_loop dev h (map (\<lambda>(c, d). (c, Flat d)) cats) out) = Inr (out @ new)
      \<and> map fst new = filter ok (map fst cats)
      \<and> (\<forall>(c, x)\<in>set new. \<exists>d h' v. (c, d) \<in> set cats \<and> fst (read dev h' d 3) = Inr v
             \<and> x = OVal v)"
  using assms
proof (induction cats arbitrary: h out)
  case Nil
  then show ?case by simp
next
  case (Cons p cats)
  obtain c d where p: "p = (c, d)" by (cases p)
  from Cons.prems(2)
  have a: "\<forall>(c, d)\<in>set cats. if ok c then always_succeeds dev d else always_fails dev d"
    by simp
  from Cons.prems(2) have b: "if ok c then always_succeeds dev d else always_fails dev d"
    by (simp add: p)
  show ?case
  proof (cases "ok c")
    case False
    with b obtain m h1 where r: "read dev h d 3 = (Inl (IOError m), h1)"
      unfolding always_fails_def by (simp only: if_False) blast
    from Cons.prems(1) have "distinct (map fst out @ map fst cats)" by (simp add: p)
    from Cons.IH [OF this a, where h = h1] obtain new
      where n: "fst (get_loop dev h1 (map (\<lambda>(c, d). (c, Flat d)) cats) out) = Inr (out @ new)"
        "map fst new = filter ok (map fst cats)"
        "\<forall>(c, x)\<in>set new. \<exists>d h' v. (c, d) \<in> set cats \<and> fst (read dev h' d 3) = Inr v
             \<and> x = OVal v"
      by blast
    from n(3) have "\<forall>(c', x)\<in>set new. \<exists>d' h' v. (c', d') \<in> set (p # cats)
        \<and> fst (read dev h' d' 3) = Inr v \<and> x = OVal v"
      by fastforce
    with n(1,2) r False show ?thesis by (intro exI [of _ new]) (simp add: p)
  next
    case True
    with b obtain v h1 where r: "read dev h d 3 = (Inr v, h1)"
      unfolding always_succeeds_def by (simp only: if_True) blast
    from Cons.prems(1) have f: "c \<notin> fst ` set out" by (auto simp: p)
    from Cons.prems(1) have "distinct (map fst (out @ [(c, OVal v)]) @ map fst cats)"
      by (auto simp: p)
    from Cons.IH [OF this a, where h = h1] obtain new
      where n: "fst (get_loop dev h1 (map (\<lambda>(c, d). (c, Flat d)) cats) (out @ [(c, OVal v)]))
                  = Inr ((out @ [(c, OVal v)]) @ new)"
        "map fst new = filter ok (map fst cats)"
        "\<forall>(c, x)\<in>set new. \<exists>d h' v. (c, d) \<in> set cats \<and> fst (read dev h' d 3) = Inr v
             \<and> x = OVal v"
      by blast
    from r have "\<exists>d' h' v'. (c, d') \<in> set (p # cats) \<and> fst (read dev h' d' 3) = Inr v'
        \<and> OVal v = OVal v'"
      by (intro exI [of _ d] exI [of _ h] exI [of _ v]) (simp add: p)
    moreover from n(3) have "\<forall>(c', x)\<in>set new. \<exists>d' h' v. (c', d') \<in> set (p # cats)
        \<and> fst (read dev h' d' 3) = Inr v \<and> x = OVal v"
      by fastforce
    ultimately have "\<forall>(c', x)\<in>set ((c, OVal v) # new). \<exists>d' h' v. (c', d') \<in> set (p # cats)
        \<and> fst (read dev h' d' 3) = Inr v \<and> x = OVal v"
      by simp
    with n(1,2) r True dict_set_fresh [OF f, of "OVal v"] show ?thesis
      by (intro exI [of _ "(c, OVal v) # new"]) (simp add: p)
  qed
qed

text \<open>
  Claim C8.  For a schema of flat categories with different names, in which the read of
  each category either always succeeds (\<open>ok c\<close>) or always fails with an \<^verbatim>\<open>IOError\<close>,
  \<^verbatim>\<open>get\<close> returns a snapshot whose keys are exactly the succeeding categories, in the
  order of the schema; every value in it is a value read from the descriptor of its
  category.  A failing category is no key of the snapshot at all.
\<close>

theorem flat_categories_isolated:
  assumes "distinct (map fst cats)"
    and "\<forall>(c, d)\<in>set cats. if ok c then always_succeeds dev d else always_fails dev d"
  shows "\<exists>snapshot. fst (get_for dev h (map (\<lambda>(c, d). (c, Flat d)) cats)) = Inr snapshot
      \<and> map fst snapshot = filter ok (map fst cats)
      \<and> (\<forall>(c, x)\<in>set snapshot. \<exists>d h' v. (c, d) \<in> set cats
             \<and> fst (read dev h' d 3) = Inr v \<and> x = OVal v)"
  using get_loop_flat [OF assms(2), where out = "[]" and h = h] assms(1)
  by (simp add: get_for_def)

lemma all_but_silent: "all_but a (h @ replicate (Suc j) (a, n)) = []"
  by (simp add: all_but_def)

lemma read_all_but_fails:
  "read (all_but (address d)) h d r =
     (Inl (IOError ''Did not receive data.''), h @ replicate (Suc r) (address d, Suc (bytes d)))"
  by (rule read_all_empty) (simp add: all_but_silent del: replicate_Suc)

lemma read_all_but_answers:
  assumes "address d \<noteq> a"
  shows "read (all_but a) h d r =
     (decode d (address d # replicate (bytes d) 60), h @ [(address d, Suc (bytes d))])"
proof -
  have "all_but a (h @ [(address d, Suc (bytes d))]) = address d # replicate (bytes d) 60"
    using assms by (simp add: all_but_def)
  with read_nonempty [where dev = "all_but a" and h = h and d = d and r = r]
  show ?thesis by simp
qed

theorem flat_categories_isolated_witness:
  "\<exists>snapshot. fst (get_for (all_but 50) []
       [(''health'', Flat (reg 52 1 ''i'')), (''status'', Flat status_register),
        (''time to empty'', Flat (reg 53 2 ''i''))]) = Inr snapshot
     \<and> map fst snapshot = [''health'', ''time to empty'']"
proof -
  let ?ok = "\<lambda>c. c \<noteq> ''status''"
  let ?cats = "[(''health'', reg 52 1 ''i''), (''status'', status_register),
                (''time to empty'', reg 53 2 ''i'')]"
  have "decode (reg 52 1 ''i'') (address (reg 52 1 ''i'') # replicate (bytes (reg 52 1 ''i'')) 60)
          = Inr (VInt 60)"
    by (simp add: reg_def decode_def index_def)
  then have 1: "always_succeeds (all_but 50) (reg 52 1 ''i'')"
    unfolding always_succeeds_def
    using read_all_but_answers [where d = "reg 52 1 ''i''" and a = 50 and r = 3]
    by (simp add: reg_def)
  have "address (reg 53 2 ''i'') # replicate (bytes (reg 53 2 ''i'')) 60 = [53, 60, 60]"
    by (simp add: reg_def numeral_2_eq_2)
  moreover have "decode (reg 53 2 ''i'') [53, 60, 60] = Inr (VInt 15420)"
    by (simp add: reg_def decode_def index_def push_bit_eq_mult)
  ultimately have 2: "always_succeeds (all_but 50) (reg 53 2 ''i'')"
    unfolding always_succeeds_def
    using read_all_but_answers [where d = "reg 53 2 ''i''" and a = 50 and r = 3]
    by (simp add: reg_def)
  have "address status_register = 50" by (simp add: status_register_def)
  then have 3: "always_fails (all_but 50) status_register"
    unfolding always_fails_def
    using read_all_but_fails [where d = status_register and r = 3] by simp
  have d: "distinct (map fst ?cats)" by simp
  have a: "\<forall>(c, d)\<in>set ?cats. if ?ok c then always_succeeds (all_but 50) d
                               else always_fails (all_but 50) d"
    using 1 2 3 by simp
  from flat_categories_isolated [OF d a, of "[]"]
  have "\<exists>snapshot. fst (get_for (all_but 50) [] (map (\<lambda>(c, d). (c, Flat d)) ?cats)) = Inr snapshot
      \<and> map fst snapshot = filter ?ok (map fst ?cats)"
    by (elim exE conjE) (intro exI conjI, assumption+)
  then show ?thesis by simp
qed


subsection \<open>Claims about short reports and escaping exceptions\<close>

lemma decode_short:
  "width_ok d \<Longrightarrow> report \<noteq> [] \<Longrightarrow> report ! 0 = address d \<Longrightarrow> length report < bytes d + 1 \<Longrightarrow>
   decode d report = Inl IndexError"
  by (auto simp: decode_def index_def width_ok_def)

lemma get_loop_append:
  "get_loop dev h (before @ sch) out =
    (case get_loop dev h before out of
       (Inl e, h') \<Rightarrow> (Inl e, h')
     | (Inr out', h') \<Rightarrow> get_loop dev h' sch out')"
proof (induction before arbitrary: h out)
  case Nil
  then show ?case by simp
next
  case (Cons p before)
  obtain c e where p: "p = (c, e)" by (cases p)
  show ?case
  proof (cases e)
    case (Flat d)
    obtain r h1 where r: "read dev h d 3 = (r, h1)" by (cases "read dev h d 3")
    show ?thesis
    proof (cases r)
      case (Inl x)
      with r Cons.IH [where h = h1 and out = out] show ?thesis by (simp add: p Flat)
    next
      case (Inr v)
      with r Cons.IH [where h = h1 and out = "dict_set out c (OVal v)"] show ?thesis
        by (simp add: p Flat)
    qed
  next
    case (Nested data)
    obtain x d h1 where r: "read_subcategories dev h data [] = (x, d, h1)"
      by (cases "read_subcategories dev h data []")
    let ?out = "dict_set (dict_set out c (ODict [])) c (ODict d)"
    from r Cons.IH [where h = h1 and out = ?out] show ?thesis
      by (simp add: p Nested Let_def read_mapping_def split: option.splits)
  qed
qed

text \<open>
  Claim C2 has a report that echoes the address but is shorter than \<open>bytes d + 1\<close> fail
  with an error of the class that \<^verbatim>\<open>get\<close> catches.  The code has no length check.
  For a descriptor whose byte count matches its format, such a report passes the two
  checks that raise \<^verbatim>\<open>IOError\<close>, and \<^verbatim>\<open>report[1]\<close> or \<^verbatim>\<open>report[2]\<close> then raises
  \<^verbatim>\<open>IndexError\<close> after one request.  That exception is not of the class \<^verbatim>\<open>IOError\<close>:
  whether the descriptor is a flat category or a subcategory of a nested one, and
  whatever categories \<open>before\<close> were read ahead of it, the exception leaves \<^verbatim>\<open>get\<close>, which
  returns no snapshot.
\<close>

theorem short_report:
  assumes "width_ok d" and "dev (h @ [(address d, bytes d + 1)]) = report" and "report \<noteq> []"
    and "report ! 0 = address d" and "length report < bytes d + 1"
  shows "read dev h d retries = (Inl IndexError, h @ [(address d, bytes d + 1)])
       \<and> \<not> is_IOError IndexError
       \<and> (get_loop dev h0 before out0 = (Inr out, h) \<longrightarrow>
            get_loop dev h0 (before @ (category, Flat d) # rest) out0
              = (Inl IndexError, h @ [(address d, bytes d + 1)]))
       \<and> (get_loop dev h0 before out0 = (Inr out, h1)
            \<and> ''address'' \<notin> set (map fst (pre @ (subcategory, d) # post))
            \<and> read_subcategories dev h1 pre [] = (None, acc, h) \<longrightarrow>
            get_loop dev h0 (before @ (category, Nested (pre @ (subcategory, d) # post)) # rest)
                out0
              = (Inl IndexError, h @ [(address d, bytes d + 1)]))"
proof -
  have r: "read dev h d n = (Inl IndexError, h @ [(address d, bytes d + 1)])" for n
    using assms read_nonempty [where dev = dev and h = h and d = d and r = n]
      decode_short [of d report] by simp
  have f: "get_loop dev h0 (before @ (category, Flat d) # rest) out0
             = (Inl IndexError, h @ [(address d, bytes d + 1)])"
    if "get_loop dev h0 before out0 = (Inr out, h)"
    using that r [of 3] by (simp add: get_loop_append)
  have n: "get_loop dev h0 (before @ (category, Nested (pre @ (subcategory, d) # post)) # rest)
             out0 = (Inl IndexError, h @ [(address d, bytes d + 1)])"
    if "get_loop dev h0 before out0 = (Inr out, h1)"
      and "''address'' \<notin> set (map fst (pre @ (subcategory, d) # post))"
      and "read_subcategories dev h1 pre [] = (None, acc, h)"
  proof -
    have "read_subcategories dev h1 (pre @ (subcategory, d) # post) []
            = (Some IndexError, acc, h @ [(address d, bytes d + 1)])"
      using that(3) r [of 3] by (simp add: read_subcategories_append)
    with that(1,2) show ?thesis by (simp add: get_loop_append)
  qed
  from r f n show ?thesis by simp
qed

theorem short_report_witness:
  "get_for (short_at 50) []
     [(''config'', Nested [(''voltage'', reg 48 1 ''i'')]), (''status'', Flat status_register),
      (''health'', Flat (reg 52 1 ''i''))]
     = (Inl IndexError, [(48, 2), (50, 2)])
   \<and> get (short_at 2) [] = (Inl IndexError, [(48, 2), (2, 2)])"
proof -
  let ?config = "[(''config'', Nested [(''voltage'', reg 48 1 ''i'')])]"
  let ?health = "[(''health'', Flat (reg 52 1 ''i''))]"
  have b1: "get_loop (short_at 50) [] ?config []
              = (Inr [(''config'', ODict [(''voltage'', VInt 60)])], [(48, 2)])"
    by code_simp
  have w1: "width_ok status_register"
    by (simp add: width_ok_def status_register_def)
  have s1: "short_at 50 ([(48, 2)] @ [(address status_register, bytes status_register + 1)])
              = [50]"
    by (simp add: short_at_def status_register_def)
  have "get_loop (short_at 50) [] (?config @ (''status'', Flat status_register) # ?health) []
          = (Inl IndexError, [(48, 2)] @ [(address status_register, bytes status_register + 1)])"
    using short_report [where dev = "short_at 50" and h = "[(48, 2)]" and d = status_register
        and report = "[50]" and ?h0.0 = "[]" and before = ?config and ?out0.0 = "[]"
        and out = "[(''config'', ODict [(''voltage'', VInt 60)])]"
        and category = "''status''" and rest = ?health, OF w1 s1] b1
    by (simp add: status_register_def)
  then have 1: "get_for (short_at 50) []
     [(''config'', Nested [(''voltage'', reg 48 1 ''i'')]), (''status'', Flat status_register),
      (''health'', Flat (reg 52 1 ''i''))]
     = (Inl IndexError, [(48, 2), (50, 2)])"
    by (simp add: get_for_def status_register_def)
  let ?d = "reg 2 1 ''i''"
  let ?pre = "[(''voltage'', reg 48 1 ''i'')]"
  let ?post = "[(''power'', reg 3 2 ''i'')]"
  have b2: "get_loop (short_at 2) [] [] [] = (Inr [], [])" by simp
  have p2: "read_subcategories (short_at 2) [] ?pre [] = (None, [(''voltage'', VInt 60)], [(48, 2)])"
    by code_simp
  have w2: "width_ok ?d" by (simp add: width_ok_def reg_def)
  have s2: "short_at 2 ([(48, 2)] @ [(address ?d, bytes ?d + 1)]) = [2]"
    by (simp add: short_at_def reg_def)
  have a2: "''address'' \<notin> set (map fst (?pre @ (''frequency'', ?d) # ?post))" by simp
  have g: "get_loop (short_at 2) []
          ([] @ (''config'', Nested (?pre @ (''frequency'', ?d) # ?post)) # tl structure_dict) []
          = (Inl IndexError, [(48, 2)] @ [(address ?d, bytes ?d + 1)])"
    using short_report [where dev = "short_at 2" and h = "[(48, 2)]" and d = ?d
        and report = "[2]" and ?h0.0 = "[]" and before = "[]" and ?out0.0 = "[]"
        and out = "[]" and ?h1.0 = "[]" and pre = ?pre and subcategory = "''frequency''"
        and post = ?post and acc = "[(''voltage'', VInt 60)]" and category = "''config''"
        and rest = "tl structure_dict", OF w2 s2] b2 p2 a2
    by (simp add: reg_def)
  have e: "[] @ (''config'', Nested (?pre @ (''frequency'', ?d) # ?post)) # tl structure_dict
      = structure_dict"
    by (simp add: structure_dict_def)
  from g have "get_loop (short_at 2) [] structure_dict []
      = (Inl IndexError, [(48, 2)] @ [(address ?d, bytes ?d + 1)])"
    unfolding e .
  then have 2: "get (short_at 2) [] = (Inl IndexError, [(48, 2), (2, 2)])"
    by (simp add: get_def get_for_def reg_def)
  from 1 2 show ?thesis by simp
qed

text \<open>
  Claim C3 has \<^verbatim>\<open>get\<close> return a snapshot whatever the device answers, truncated reports
  included, with every failure of a single descriptor turned into an omission.  The code
  does so for the two \<^verbatim>\<open>IOError\<close>s of \<^verbatim>\<open>_read\<close> only.  Against a device that answers
  every request with the address byte alone, \<^verbatim>\<open>get\<close> over \<^verbatim>\<open>structure\<close> makes one request,
  for \<^verbatim>\<open>config.voltage\<close>, and ends there with \<^verbatim>\<open>IndexError\<close>: no snapshot is returned and
  the nine other registers are never read.
\<close>

theorem get_truncated_report_escapes:
  "get echo_only [] = (Inl IndexError, [(48, 2)])"
  by code_simp

end
